theory Spec2Isabelle
  imports Main
begin

section \<open>Thrown values and outcomes of effectful calls\<close>

text \<open>
  A JavaScript call either returns or throws.  The abstract accessors of \<open>lib/tree.js\<close>
  throw \<open>new Error('<name> must be overridden')\<close>; calling a property that is not a
  function throws a \<open>TypeError\<close>; a visitor callback may throw any value at all
  (\<open>Other\<close>, but also the first two).
\<close>

datatype 'x exn = Error string | TypeError string | Other 'x

text \<open>
  Everything a callback can mutate (report buffers, the object behind \<open>state\<close>, the
  console) is the world \<open>'w\<close>.  A call that throws still leaves a world behind: the one
  the callee had reached when it threw.
\<close>

datatype ('x, 'w) outcome = Done 'w | Threw "'x exn" 'w

text \<open>Statement sequencing: the second statement runs only if the first returned.\<close>

fun andThen :: "('x, 'w) outcome \<Rightarrow> ('w \<Rightarrow> ('x, 'w) outcome) \<Rightarrow> ('x, 'w) outcome" where
  "andThen (Done w) k = k w"
| "andThen (Threw e w) k = Threw e w"

lemma andThen_cong [fundef_cong]:
  "m = m' \<Longrightarrow> (\<And>w. k w = k' w) \<Longrightarrow> andThen m k = andThen m' k'"
  by (cases m') simp_all

section \<open>Coverage records (external collaborators)\<close>

text \<open>
  Modelled from the spec: the coverage summary and the file coverage record belong to the
  coverage library, not to this repository.  A summary holds four metrics with the
  counts \<open>total\<close>, \<open>covered\<close> and \<open>skipped\<close> (\<open>pct\<close> is derived from them and not
  stored here); merging adds the counts; a file coverage record can be viewed as a
  summary.
\<close>

record metric =
  total :: nat
  covered :: nat
  skipped :: nat

record coverage_summary =
  cs_statements :: metric
  cs_branches :: metric
  cs_functions :: metric
  cs_lines :: metric

definition merge_metric :: "metric \<Rightarrow> metric \<Rightarrow> metric" where
  "merge_metric a b =
     \<lparr>total = total a + total b, covered = covered a + covered b,
      skipped = skipped a + skipped b\<rparr>"

definition merge :: "coverage_summary \<Rightarrow> coverage_summary \<Rightarrow> coverage_summary" where
  "merge a b =
     \<lparr>cs_statements = merge_metric (cs_statements a) (cs_statements b),
      cs_branches = merge_metric (cs_branches a) (cs_branches b),
      cs_functions = merge_metric (cs_functions a) (cs_functions b),
      cs_lines = merge_metric (cs_lines a) (cs_lines b)\<rparr>"

definition empty_metric :: metric where
  "empty_metric = \<lparr>total = 0, covered = 0, skipped = 0\<rparr>"

definition empty_summary :: coverage_summary where
  "empty_summary =
     \<lparr>cs_statements = empty_metric, cs_branches = empty_metric,
      cs_functions = empty_metric, cs_lines = empty_metric\<rparr>"

record file_coverage =
  fc_path :: string
  fc_counts :: coverage_summary

definition toSummary :: "file_coverage \<Rightarrow> coverage_summary" where
  "toSummary fc = fc_counts fc"

section \<open>Node: the abstract base class and its overrides\<close>

text \<open>
  A node object is an instance of some concrete subtype of \<open>Node\<close>.  For each abstract
  accessor the subtype either supplies an override (\<open>Some\<close> of what the override
  returns) or omits it (\<open>None\<close>), in which case the call resolves to
  \<open>Node.prototype\<close>.  A reference to another node (the parent) is the qualified name
  of that node; \<open>null\<close> is \<open>None\<close>.
\<close>

type_synonym node_ref = string

datatype node = Node
  (ov_getQualifiedName: "string option")
  (ov_getRelativeName: "string option")
  (ov_getParent: "node_ref option option")
  (ov_getChildren: "node list option")
  (ov_isSummary: "bool option")
  (ov_getCoverageSummary: "(bool \<Rightarrow> coverage_summary) option")
  (ov_getFileCoverage: "file_coverage option option")

definition getQualifiedName :: "node \<Rightarrow> 'x exn + string" where
  "getQualifiedName this =
     (case ov_getQualifiedName this of
        None \<Rightarrow> Inl (Error ''getQualifiedName must be overridden'')
      | Some v \<Rightarrow> Inr v)"

definition getRelativeName :: "node \<Rightarrow> 'x exn + string" where
  "getRelativeName this =
     (case ov_getRelativeName this of
        None \<Rightarrow> Inl (Error ''getRelativeName must be overridden'')
      | Some v \<Rightarrow> Inr v)"

definition getParent :: "node \<Rightarrow> 'x exn + node_ref option" where
  "getParent this =
     (case ov_getParent this of
        None \<Rightarrow> Inl (Error ''getParent must be overridden'')
      | Some v \<Rightarrow> Inr v)"

definition getChildren :: "node \<Rightarrow> 'x exn + node list" where
  "getChildren this =
     (case ov_getChildren this of
        None \<Rightarrow> Inl (Error ''getChildren must be overridden'')
      | Some v \<Rightarrow> Inr v)"

definition isSummary :: "node \<Rightarrow> 'x exn + bool" where
  "isSummary this =
     (case ov_isSummary this of
        None \<Rightarrow> Inl (Error ''isSummary must be overridden'')
      | Some v \<Rightarrow> Inr v)"

definition getCoverageSummary :: "node \<Rightarrow> bool \<Rightarrow> 'x exn + coverage_summary" where
  "getCoverageSummary this filesOnly =
     (case ov_getCoverageSummary this of
        None \<Rightarrow> Inl (Error ''getCoverageSummary must be overridden'')
      | Some g \<Rightarrow> Inr (g filesOnly))"

definition getFileCoverage :: "node \<Rightarrow> 'x exn + file_coverage option" where
  "getFileCoverage this =
     (case ov_getFileCoverage this of
        None \<Rightarrow> Inl (Error ''getFileCoverage must be overridden'')
      | Some v \<Rightarrow> Inr v)"

text \<open>\<open>isRoot\<close> is \<open>!this.getParent()\<close>: it fails when \<open>getParent\<close> fails.\<close>

definition isRoot :: "node \<Rightarrow> 'x exn + bool" where
  "isRoot this =
     (case getParent this of
        Inl e \<Rightarrow> Inl e
      | Inr p \<Rightarrow> Inr (p = None))"

section \<open>Visitor and CompositeVisitor\<close>

text \<open>
  The five callback names are the values of \<open>k\<close> in the two \<open>forEach\<close> loops that
  install \<open>'on' + k\<close> on the prototypes.
\<close>

datatype cbname = Start | End | Summary | SummaryEnd | Detail

type_synonym ('s, 'w, 'x) callback = "node \<Rightarrow> 's \<Rightarrow> 'w \<Rightarrow> ('x, 'w) outcome"

text \<open>
  What \<open>delegate[f]\<close> may hold: nothing, a value that is not a function, or a function.
\<close>

datatype ('s, 'w, 'x) slot = Absent | NotCallable | Callable "('s, 'w, 'x) callback"

type_synonym ('s, 'w, 'x) delegate = "cbname \<Rightarrow> ('s, 'w, 'x) slot"

text \<open>
  Instances of \<open>Visitor\<close>: a plain \<open>Visitor\<close> around a delegate, or a
  \<open>CompositeVisitor\<close> (which inherits from \<open>Visitor\<close>) around its members.
\<close>

datatype ('s, 'w, 'x) visitor =
    Visitor "('s, 'w, 'x) delegate"
  | CompositeVisitor "('s, 'w, 'x) visitor list"

text \<open>
  Any object a caller may pass where a visitor is expected: a raw, possibly partial
  object, or an instance of \<open>Visitor\<close> (\<open>v instanceof Visitor\<close>).
\<close>

datatype ('s, 'w, 'x) vobj =
    Raw "('s, 'w, 'x) delegate"
  | Inst "('s, 'w, 'x) visitor"

text \<open>
  \<open>on v f\<close> is the method \<open>v['on' + f]\<close> of an instance: \<open>Visitor.prototype[f]\<close> calls
  the delegate's function when there is one and does nothing otherwise;
  \<open>CompositeVisitor.prototype[f]\<close> calls the method on each member in array order.
\<close>

fun on :: "('s, 'w, 'x) visitor \<Rightarrow> cbname \<Rightarrow> ('s, 'w, 'x) callback"
  and on_forEach :: "('s, 'w, 'x) visitor list \<Rightarrow> cbname \<Rightarrow> ('s, 'w, 'x) callback"
  where
  "on (Visitor delegate) f node state w =
     (case delegate f of
        Callable g \<Rightarrow> g node state w
      | _ \<Rightarrow> Done w)"
| "on (CompositeVisitor visitors) f node state w = on_forEach visitors f node state w"
| "on_forEach [] f node state w = Done w"
| "on_forEach (v # vs) f node state w =
     andThen (on v f node state w) (on_forEach vs f node state)"

text \<open>
  \<open>call_on visitor f\<close> is the expression \<open>visitor['on' + f](node, state)\<close> for any object:
  on a raw object whose slot holds no function it is a \<open>TypeError\<close>.
\<close>

fun callback_name :: "cbname \<Rightarrow> string" where
  "callback_name Start = ''onStart''"
| "callback_name End = ''onEnd''"
| "callback_name Summary = ''onSummary''"
| "callback_name SummaryEnd = ''onSummaryEnd''"
| "callback_name Detail = ''onDetail''"

definition not_a_function :: "cbname \<Rightarrow> 'x exn" where
  "not_a_function f = TypeError (''visitor.'' @ callback_name f @ '' is not a function'')"

fun call_on :: "('s, 'w, 'x) vobj \<Rightarrow> cbname \<Rightarrow> ('s, 'w, 'x) callback" where
  "call_on (Inst v) f node state w = on v f node state w"
| "call_on (Raw delegate) f node state w =
     (case delegate f of
        Callable g \<Rightarrow> g node state w
      | _ \<Rightarrow> Threw (not_a_function f) w)"

text \<open>The wrapping step shared by \<open>CompositeVisitor\<close> and \<open>Tree.prototype.visit\<close>.\<close>

fun wrap :: "('s, 'w, 'x) vobj \<Rightarrow> ('s, 'w, 'x) visitor" where
  "wrap (Inst v) = v"
| "wrap (Raw delegate) = Visitor delegate"

text \<open>The constructor argument: an array (\<open>Array.isArray\<close>) or a single object.\<close>

datatype ('s, 'w, 'x) ctor_arg =
    Single "('s, 'w, 'x) vobj"
  | Array "('s, 'w, 'x) vobj list"

definition new_CompositeVisitor :: "('s, 'w, 'x) ctor_arg \<Rightarrow> ('s, 'w, 'x) visitor" where
  "new_CompositeVisitor arg =
     (let visitors = (case arg of Array vs \<Rightarrow> vs | Single v \<Rightarrow> [v])
      in CompositeVisitor (map wrap visitors))"

section \<open>Traversal\<close>

lemma getChildren_size:
  "(getChildren this :: 'x exn + node list) = Inr cs \<Longrightarrow> size_list size cs < size this"
  by (cases this) (auto simp: getChildren_def split: option.splits)

function Node_visit :: "('s, 'w, 'x) vobj \<Rightarrow> 's \<Rightarrow> node \<Rightarrow> 'w \<Rightarrow> ('x, 'w) outcome"
  and visitChildren :: "('s, 'w, 'x) vobj \<Rightarrow> 's \<Rightarrow> node list \<Rightarrow> 'w \<Rightarrow> ('x, 'w) outcome"
  where
  "Node_visit visitor state this w =
     (case isSummary this of
        Inl e \<Rightarrow> Threw e w
      | Inr s \<Rightarrow>
          andThen (if s then call_on visitor Summary this state w
                   else call_on visitor Detail this state w)
            (\<lambda>w1. case getChildren this of
                     Inl e \<Rightarrow> Threw e w1
                   | Inr cs \<Rightarrow>
                       andThen (visitChildren visitor state cs w1)
                         (\<lambda>w2. case isSummary this of
                                  Inl e \<Rightarrow> Threw e w2
                                | Inr s' \<Rightarrow>
                                    if s' then call_on visitor SummaryEnd this state w2
                                    else Done w2)))"
| "visitChildren visitor state [] w = Done w"
| "visitChildren visitor state (child # cs) w =
     andThen (Node_visit visitor state child w) (visitChildren visitor state cs)"
  by pat_completeness auto
termination
  by (relation "measure (\<lambda>a. case a of
         Inl (_, _, n, _) \<Rightarrow> size n
       | Inr (_, _, cs, _) \<Rightarrow> size_list size cs)")
     (auto dest: getChildren_size)

declare Node_visit.simps [simp del]

section \<open>Tree\<close>

datatype tree = Tree (ov_getRoot: "node option")

definition getRoot :: "tree \<Rightarrow> 'x exn + node" where
  "getRoot this =
     (case ov_getRoot this of
        None \<Rightarrow> Inl (Error ''getRoot must be overridden'')
      | Some v \<Rightarrow> Inr v)"

definition Tree_visit :: "('s, 'w, 'x) vobj \<Rightarrow> 's \<Rightarrow> tree \<Rightarrow> 'w \<Rightarrow> ('x, 'w) outcome" where
  "Tree_visit visitor0 state this w =
     (let visitor = wrap visitor0 in
      case getRoot this of
        Inl e \<Rightarrow> Threw e w
      | Inr r \<Rightarrow>
          andThen (on visitor Start r state w)
            (\<lambda>w1. case getRoot this of
                     Inl e \<Rightarrow> Threw e w1
                   | Inr r1 \<Rightarrow>
                       andThen (Node_visit (Inst visitor) state r1 w1)
                         (\<lambda>w2. case getRoot this of
                                  Inl e \<Rightarrow> Threw e w2
                                | Inr r2 \<Rightarrow> on visitor End r2 state w2)))"

section \<open>The traversal protocol as a sequence of calls\<close>

text \<open>
  The specification describes a traversal by the calls it makes on the visitor, in
  order.  The definitions of this section follow those words: a node is a summary node
  when its \<open>isSummary\<close> returns true, \<open>children\<close> is its child sequence, and
  \<open>spec_visit_calls\<close> lists the calls of the three numbered steps of \<open>Node.visit\<close>.
  A node is \<open>concrete\<close> when it and all its descendants implement the two accessors
  the traversal reads.  \<open>run_calls\<close> makes the listed calls one after the other, each as
  \<open>visitor['on' + f](node, state)\<close>, and stops at the first that throws.
\<close>

definition summary :: "node \<Rightarrow> bool" where
  "summary n = (ov_isSummary n = Some True)"

definition children :: "node \<Rightarrow> node list" where
  "children n = (case ov_getChildren n of None \<Rightarrow> [] | Some cs \<Rightarrow> cs)"

lemma children_size: "c \<in> set (children n) \<Longrightarrow> size c < size n"
proof -
  assume c: "c \<in> set (children n)"
  then obtain cs where cs: "ov_getChildren n = Some cs" and mem: "c \<in> set cs"
    by (cases "ov_getChildren n") (auto simp: children_def)
  have "size c \<le> size_list size cs"
    using mem by (rule size_list_estimation') simp
  moreover have "size_list size cs < size n"
    using cs by (cases n) simp
  ultimately show ?thesis by simp
qed

function concrete :: "node \<Rightarrow> bool" where
  "concrete n = (ov_isSummary n \<noteq> None \<and> ov_getChildren n \<noteq> None \<and> list_all concrete (children n))"
  by pat_completeness auto
termination
  by (relation "measure size") (auto dest: children_size)

type_synonym call = "cbname \<times> node"

function spec_visit_calls :: "node \<Rightarrow> call list" where
  "spec_visit_calls n =
     (if summary n then [(Summary, n)] else [(Detail, n)])
     @ concat (map spec_visit_calls (children n))
     @ (if summary n then [(SummaryEnd, n)] else [])"
  by pat_completeness auto
termination
  by (relation "measure size") (auto dest: children_size)

declare concrete.simps [simp del] spec_visit_calls.simps [simp del]

fun run_calls :: "('s, 'w, 'x) vobj \<Rightarrow> 's \<Rightarrow> call list \<Rightarrow> 'w \<Rightarrow> ('x, 'w) outcome" where
  "run_calls visitor state [] w = Done w"
| "run_calls visitor state ((f, node) # cs) w =
     andThen (call_on visitor f node state w) (run_calls visitor state cs)"

lemma andThen_assoc: "andThen (andThen m k) h = andThen m (\<lambda>w. andThen (k w) h)"
  by (cases m) simp_all

lemma andThen_Done: "andThen m Done = m"
  by (cases m) simp_all

lemma run_calls_append:
  "run_calls v st (xs @ ys) w = andThen (run_calls v st xs w) (run_calls v st ys)"
proof (induction xs arbitrary: w)
  case Nil
  show ?case by simp
next
  case (Cons c xs)
  obtain f n where c: "c = (f, n)" by (cases c)
  have "run_calls v st (xs @ ys) = (\<lambda>w. andThen (run_calls v st xs w) (run_calls v st ys))"
    using Cons.IH by (intro ext)
  then show ?case by (simp add: c andThen_assoc)
qed

lemma run_calls_append_fun:
  "run_calls v st (xs @ ys) = (\<lambda>w. andThen (run_calls v st xs w) (run_calls v st ys))"
  by (intro ext) (rule run_calls_append)

lemma run_calls_Nil_fun: "run_calls v st [] = Done"
  by (intro ext) simp

lemma run_calls_single: "run_calls v st [(f, n)] = call_on v f n st"
  by (intro ext) (simp add: run_calls_Nil_fun andThen_Done)

lemma visit_refines:
  "concrete n \<Longrightarrow> Node_visit v st n w = run_calls v st (spec_visit_calls n) w"
  "list_all concrete cs \<Longrightarrow> visitChildren v st cs w = run_calls v st (concat (map spec_visit_calls cs)) w"
proof (induction v st n w and v st cs w rule: Node_visit_visitChildren.induct)
  case (1 visitor state this w)
  from "1.prems" obtain s cs where s: "ov_isSummary this = Some s"
    and cs: "ov_getChildren this = Some cs" and all: "list_all concrete cs"
    by (subst (asm) concrete.simps) (auto simp: children_def)
  have sm: "isSummary this = Inr s" and gc: "getChildren this = Inr cs"
    using s cs by (simp_all add: isSummary_def getChildren_def)
  have kids: "visitChildren visitor state cs = run_calls visitor state (concat (map spec_visit_calls cs))"
    using "1.IH" [OF sm gc all] by (intro ext)
  have calls: "spec_visit_calls this =
      (if s then [(Summary, this)] else [(Detail, this)])
      @ concat (map spec_visit_calls cs) @ (if s then [(SummaryEnd, this)] else [])"
    using s cs by (subst spec_visit_calls.simps) (simp add: summary_def children_def)
  show ?case
    by (cases s)
      (simp_all add: Node_visit.simps sm gc kids calls run_calls_append_fun run_calls_single
        andThen_Done)
next
  case (2 visitor state w)
  then show ?case by simp
next
  case (3 visitor state child cs w)
  then show ?case by (simp add: run_calls_append cong: andThen_cong)
qed

text \<open>
  The calls of \<open>Tree.visit\<close> in the specification's words: \<open>onStart(root, state)\<close>, the
  traversal from the root, \<open>onEnd(root, state)\<close>.
\<close>

definition spec_tree_calls :: "node \<Rightarrow> call list" where
  "spec_tree_calls root = [(Start, root)] @ spec_visit_calls root @ [(End, root)]"

lemma spec_visit_calls_names:
  "c \<in> set (spec_visit_calls n) \<Longrightarrow> fst c \<in> {Summary, SummaryEnd, Detail}"
proof (induction n arbitrary: c rule: spec_visit_calls.induct)
  case (1 n)
  from "1.prems" show ?case
    by (subst (asm) spec_visit_calls.simps) (auto split: if_splits dest: "1.IH")
qed

lemma spec_visit_calls_SummaryEnd:
  "(SummaryEnd, m) \<in> set (spec_visit_calls n) \<Longrightarrow> summary m"
proof (induction n rule: spec_visit_calls.induct)
  case (1 n)
  from "1.prems" show ?case
    by (subst (asm) spec_visit_calls.simps) (auto split: if_splits dest: "1.IH")
qed

section \<open>Example objects\<close>

text \<open>
  A delegate that implements all five callbacks by appending the call it received to a
  log (the world is the log), and a few small nodes and trees.
\<close>

definition recorder :: "('s, (cbname \<times> node \<times> 's) list, 'x) delegate" where
  "recorder f = Callable (\<lambda>node state log. Done (log @ [(f, node, state)]))"

definition file_node :: "string \<Rightarrow> string \<Rightarrow> string \<Rightarrow> node" where
  "file_node dir name parent =
     Node (Some (dir @ ''/'' @ name)) (Some name) (Some (Some parent)) (Some []) (Some False)
       (Some (\<lambda>filesOnly. empty_summary))
       (Some (Some \<lparr>fc_path = dir @ ''/'' @ name, fc_counts = empty_summary\<rparr>))"

definition dir_node :: "string \<Rightarrow> node_ref option \<Rightarrow> node list \<Rightarrow> node" where
  "dir_node name parent cs =
     Node (Some name) (Some name) (Some parent) (Some cs) (Some True)
       (Some (\<lambda>filesOnly. empty_summary)) (Some None)"

type_synonym log_vobj = "(unit, (cbname \<times> node \<times> unit) list, unit) vobj"

definition example_lib :: node where
  "example_lib = dir_node ''lib'' None
     [file_node ''lib'' ''a.js'' ''lib'', file_node ''lib'' ''b.js'' ''lib'']"

section \<open>Properties of the traversal protocol\<close>

text \<open>
  Claim C1.  For a node whose subtree implements \<open>isSummary\<close> and \<open>getChildren\<close>,
  \<open>Node.visit(visitor, state)\<close> makes exactly the calls of \<open>spec_visit_calls\<close>, in that
  order and with the state it was given: first \<open>onSummary\<close> for a summary node and
  \<open>onDetail\<close> otherwise, then the calls of each child in child-sequence order, and for
  a summary node \<open>onSummaryEnd\<close> after all of them.  No \<open>onSummaryEnd\<close> call in the
  whole traversal is on a node that is not a summary node.
\<close>

theorem Node_visit_callback_order:
  assumes "concrete n"
  shows "Node_visit visitor state n w = run_calls visitor state (spec_visit_calls n) w
    \<and> (\<forall>m. (SummaryEnd, m) \<in> set (spec_visit_calls n) \<longrightarrow> summary m)"
  using assms by (simp add: visit_refines spec_visit_calls_SummaryEnd)

lemma concrete_example_lib: "concrete example_lib"
  by (simp add: example_lib_def dir_node_def file_node_def concrete.simps children_def)

theorem Node_visit_callback_order_witness:
  "concrete example_lib \<and>
   Node_visit (Raw recorder :: log_vobj) () example_lib [] =
     Done [(Summary, example_lib, ()),
           (Detail, file_node ''lib'' ''a.js'' ''lib'', ()),
           (Detail, file_node ''lib'' ''b.js'' ''lib'', ()),
           (SummaryEnd, example_lib, ())]"
proof -
  have "run_calls (Raw recorder :: log_vobj) () (spec_visit_calls example_lib) [] =
     Done [(Summary, example_lib, ()),
           (Detail, file_node ''lib'' ''a.js'' ''lib'', ()),
           (Detail, file_node ''lib'' ''b.js'' ''lib'', ()),
           (SummaryEnd, example_lib, ())]"
    by (simp add: example_lib_def dir_node_def file_node_def spec_visit_calls.simps
        children_def summary_def recorder_def)
  then show ?thesis
    using Node_visit_callback_order [OF concrete_example_lib, of "Raw recorder :: log_vobj" "()" "[]"]
      concrete_example_lib
    by simp
qed

lemma getRoot_Some: "ov_getRoot t = Some root \<Longrightarrow> getRoot t = Inr root"
  by (simp add: getRoot_def)

lemma call_on_Inst_fun: "call_on (Inst v) f node state = on v f node state"
  by (intro ext) simp

lemma Tree_visit_refines:
  assumes "ov_getRoot t = Some root" and "concrete root"
  shows "Tree_visit visitor state t w =
    run_calls (Inst (wrap visitor)) state (spec_tree_calls root) w"
proof -
  have "Node_visit (Inst (wrap visitor)) state root =
      run_calls (Inst (wrap visitor)) state (spec_visit_calls root)"
    using assms(2) by (intro ext) (rule visit_refines)
  then show ?thesis
    by (simp add: Tree_visit_def Let_def getRoot_Some [OF assms(1)] spec_tree_calls_def
        run_calls_append_fun run_calls_single call_on_Inst_fun)
qed

text \<open>
  Claim C2.  \<open>Tree.visit(visitor, state)\<close> on a tree with a root whose subtree is
  concrete makes the call \<open>onStart(root, state)\<close>, then the calls of the depth-first
  traversal from the root, then \<open>onEnd(root, state)\<close>, on the wrapped visitor.  Among
  all these calls there is exactly one \<open>onStart\<close> and exactly one \<open>onEnd\<close>; the calls of
  the traversal itself contain neither.
\<close>

theorem Tree_visit_callback_order:
  assumes "ov_getRoot t = Some root" and "concrete root"
  shows "Tree_visit visitor state t w =
      run_calls (Inst (wrap visitor)) state (spec_tree_calls root) w
    \<and> spec_tree_calls root = (Start, root) # spec_visit_calls root @ [(End, root)]
    \<and> length (filter (\<lambda>c. fst c = Start) (spec_tree_calls root)) = 1
    \<and> length (filter (\<lambda>c. fst c = End) (spec_tree_calls root)) = 1
    \<and> (\<forall>c \<in> set (spec_visit_calls root). fst c \<noteq> Start \<and> fst c \<noteq> End)"
proof -
  have inner: "fst c \<noteq> Start \<and> fst c \<noteq> End" if "c \<in> set (spec_visit_calls root)" for c
    using spec_visit_calls_names [OF that] by auto
  then have "filter (\<lambda>c. fst c = Start) (spec_visit_calls root) = []"
    and "filter (\<lambda>c. fst c = End) (spec_visit_calls root) = []"
    by (simp_all add: filter_empty_conv)
  then show ?thesis
    using inner by (simp add: Tree_visit_refines [OF assms] spec_tree_calls_def)
qed

definition example_tree :: tree where
  "example_tree = Tree (Some example_lib)"

theorem Tree_visit_callback_order_witness:
  "ov_getRoot example_tree = Some example_lib \<and> concrete example_lib \<and>
   Tree_visit (Raw recorder :: log_vobj) () example_tree [] =
     Done [(Start, example_lib, ()),
           (Summary, example_lib, ()),
           (Detail, file_node ''lib'' ''a.js'' ''lib'', ()),
           (Detail, file_node ''lib'' ''b.js'' ''lib'', ()),
           (SummaryEnd, example_lib, ()),
           (End, example_lib, ())]"
proof -
  have r: "ov_getRoot example_tree = Some example_lib"
    by (simp add: example_tree_def)
  have "run_calls (Inst (wrap (Raw recorder :: log_vobj))) () (spec_tree_calls example_lib) [] =
     Done [(Start, example_lib, ()),
           (Summary, example_lib, ()),
           (Detail, file_node ''lib'' ''a.js'' ''lib'', ()),
           (Detail, file_node ''lib'' ''b.js'' ''lib'', ()),
           (SummaryEnd, example_lib, ()),
           (End, example_lib, ())]"
    by (simp add: spec_tree_calls_def example_lib_def dir_node_def file_node_def
        spec_visit_calls.simps children_def summary_def recorder_def)
  then show ?thesis
    using Tree_visit_callback_order [OF r concrete_example_lib, of "Raw recorder :: log_vobj" "()" "[]"]
      r concrete_example_lib
    by simp
qed

lemma visitChildren_append:
  "visitChildren v st (xs @ ys) w = andThen (visitChildren v st xs w) (visitChildren v st ys)"
proof (induction xs arbitrary: w)
  case Nil
  show ?case by simp
next
  case (Cons c xs)
  have "visitChildren v st (xs @ ys) =
      (\<lambda>w. andThen (visitChildren v st xs w) (visitChildren v st ys))"
    using Cons.IH by (intro ext)
  then show ?case by (simp add: andThen_assoc)
qed

lemma visitChildren_append_fun:
  "visitChildren v st (xs @ ys) =
     (\<lambda>w. andThen (visitChildren v st xs w) (visitChildren v st ys))"
  by (intro ext) (rule visitChildren_append)

lemma visitChildren_Cons_fun:
  "visitChildren v st (c # cs) =
     (\<lambda>w. andThen (Node_visit v st c w) (visitChildren v st cs))"
  by (intro ext) simp

text \<open>
  Claim C10.  Whatever \<open>isSummary\<close> returns, \<open>Node.visit\<close> walks the sequence returned
  by \<open>getChildren\<close>: after the first callback (\<open>onDetail\<close> for a detail node) the
  children before \<open>child\<close> are visited, then \<open>child\<close>, then the children after it; the
  node variant only decides the first callback and whether \<open>onSummaryEnd\<close> follows.
\<close>

theorem Node_visit_children_unconditional:
  assumes "ov_isSummary n = Some b"
    and "ov_getChildren n = Some (before @ child # after)"
  shows "Node_visit visitor state n w =
    andThen (call_on visitor (if b then Summary else Detail) n state w)
      (\<lambda>w0. andThen (visitChildren visitor state before w0)
        (\<lambda>w1. andThen (Node_visit visitor state child w1)
          (\<lambda>w2. andThen (visitChildren visitor state after w2)
            (\<lambda>w3. if b then call_on visitor SummaryEnd n state w3 else Done w3))))"
proof -
  have sm: "isSummary n = Inr b"
    and gc: "getChildren n = Inr (before @ child # after)"
    using assms by (simp_all add: isSummary_def getChildren_def)
  show ?thesis
    by (cases b)
      (simp_all add: Node_visit.simps sm gc visitChildren_append_fun andThen_assoc
        visitChildren_Cons_fun)
qed


definition detail_with_child :: node where
  "detail_with_child =
     Node (Some ''odd.js'') (Some ''odd.js'') (Some None)
       (Some [file_node ''odd.js'' ''inner.js'' ''odd.js'']) (Some False)
       (Some (\<lambda>filesOnly. empty_summary))
       (Some (Some \<lparr>fc_path = ''odd.js'', fc_counts = empty_summary\<rparr>))"

theorem Node_visit_children_unconditional_witness:
  "ov_isSummary detail_with_child = Some False \<and>
   ov_getChildren detail_with_child = Some ([] @ file_node ''odd.js'' ''inner.js'' ''odd.js'' # []) \<and>
   Node_visit (Raw recorder :: log_vobj) () detail_with_child [] =
     Done [(Detail, detail_with_child, ()),
           (Detail, file_node ''odd.js'' ''inner.js'' ''odd.js'', ())]"
proof -
  have s: "ov_isSummary detail_with_child = Some False"
    and c: "ov_getChildren detail_with_child =
      Some ([] @ file_node ''odd.js'' ''inner.js'' ''odd.js'' # [])"
    by (simp_all add: detail_with_child_def)
  have leaf: "Node_visit (Raw recorder :: log_vobj) () (file_node ''odd.js'' ''inner.js'' ''odd.js'') w =
      Done (w @ [(Detail, file_node ''odd.js'' ''inner.js'' ''odd.js'', ())])" for w
    by (simp add: Node_visit.simps file_node_def isSummary_def getChildren_def recorder_def)
  show ?thesis
    using Node_visit_children_unconditional [OF s c, of "Raw recorder :: log_vobj" "()" "[]"]
    by (simp add: s c leaf recorder_def)
qed

section \<open>Abstract accessors\<close>

text \<open>
  Claim C8.  Each of the seven abstract accessors of a node, and \<open>getRoot\<close> of a tree,
  called on an object whose subtype omits the override, throws the error
  \<open>'<name> must be overridden'\<close> instead of returning a value.
\<close>

theorem abstract_accessors_unimplemented:
  "(ov_getQualifiedName n = None \<longrightarrow>
      (getQualifiedName n :: 'x exn + string) = Inl (Error ''getQualifiedName must be overridden''))
   \<and> (ov_getRelativeName n = None \<longrightarrow>
      (getRelativeName n :: 'x exn + string) = Inl (Error ''getRelativeName must be overridden''))
   \<and> (ov_getParent n = None \<longrightarrow>
      (getParent n :: 'x exn + node_ref option) = Inl (Error ''getParent must be overridden''))
   \<and> (ov_getChildren n = None \<longrightarrow>
      (getChildren n :: 'x exn + node list) = Inl (Error ''getChildren must be overridden''))
   \<and> (ov_isSummary n = None \<longrightarrow>
      (isSummary n :: 'x exn + bool) = Inl (Error ''isSummary must be overridden''))
   \<and> (ov_getCoverageSummary n = None \<longrightarrow>
      (getCoverageSummary n filesOnly :: 'x exn + coverage_summary) =
        Inl (Error ''getCoverageSummary must be overridden''))
   \<and> (ov_getFileCoverage n = None \<longrightarrow>
      (getFileCoverage n :: 'x exn + file_coverage option) =
        Inl (Error ''getFileCoverage must be overridden''))
   \<and> (ov_getRoot t = None \<longrightarrow>
      (getRoot t :: 'x exn + node) = Inl (Error ''getRoot must be overridden''))"
  by (simp add: getQualifiedName_def getRelativeName_def getParent_def getChildren_def
      isSummary_def getCoverageSummary_def getFileCoverage_def getRoot_def)

definition abstract_node :: node where
  "abstract_node = Node None None None None None None None"

definition abstract_tree :: tree where
  "abstract_tree = Tree None"

theorem abstract_accessors_unimplemented_witness:
  "(getQualifiedName abstract_node :: unit exn + string) =
      Inl (Error ''getQualifiedName must be overridden'')
   \<and> (getRelativeName abstract_node :: unit exn + string) =
      Inl (Error ''getRelativeName must be overridden'')
   \<and> (getParent abstract_node :: unit exn + node_ref option) =
      Inl (Error ''getParent must be overridden'')
   \<and> (getChildren abstract_node :: unit exn + node list) =
      Inl (Error ''getChildren must be overridden'')
   \<and> (isSummary abstract_node :: unit exn + bool) =
      Inl (Error ''isSummary must be overridden'')
   \<and> (getCoverageSummary abstract_node False :: unit exn + coverage_summary) =
      Inl (Error ''getCoverageSummary must be overridden'')
   \<and> (getFileCoverage abstract_node :: unit exn + file_coverage option) =
      Inl (Error ''getFileCoverage must be overridden'')
   \<and> (getRoot abstract_tree :: unit exn + node) = Inl (Error ''getRoot must be overridden'')
   \<and> ov_getQualifiedName abstract_node = None \<and> ov_getRelativeName abstract_node = None
   \<and> ov_getParent abstract_node = None \<and> ov_getChildren abstract_node = None
   \<and> ov_isSummary abstract_node = None \<and> ov_getCoverageSummary abstract_node = None
   \<and> ov_getFileCoverage abstract_node = None \<and> ov_getRoot abstract_tree = None"
  using abstract_accessors_unimplemented [of abstract_node False abstract_tree, where ?'x = unit]
  by (simp add: abstract_node_def abstract_tree_def)

text \<open>
  Claim C9.  \<open>isRoot()\<close> returns true exactly when \<open>getParent()\<close> returns no node and
  false exactly when it returns one; it throws exactly when \<open>getParent()\<close> throws.  It is
  computed from the result of \<open>getParent()\<close> alone: two nodes with the same
  \<open>getParent()\<close> result have the same \<open>isRoot()\<close> result.
\<close>

theorem isRoot_derived_from_getParent:
  "((isRoot n :: 'x exn + bool) = Inr True) = ((getParent n :: 'x exn + node_ref option) = Inr None)
   \<and> ((isRoot n :: 'x exn + bool) = Inr False) =
        (\<exists>p. (getParent n :: 'x exn + node_ref option) = Inr (Some p))
   \<and> ((\<exists>e. (isRoot n :: 'x exn + bool) = Inl e) =
        (\<exists>e. (getParent n :: 'x exn + node_ref option) = Inl e))
   \<and> ((getParent n :: 'x exn + node_ref option) = getParent m \<longrightarrow>
        (isRoot n :: 'x exn + bool) = isRoot m)"
  by (auto simp: isRoot_def split: sum.splits)

theorem isRoot_derived_from_getParent_witness:
  "(getParent example_lib :: unit exn + node_ref option) =
      getParent (dir_node ''other'' None [])
   \<and> (isRoot example_lib :: unit exn + bool) = isRoot (dir_node ''other'' None [])
   \<and> (isRoot example_lib :: unit exn + bool) = Inr True
   \<and> (isRoot (file_node ''lib'' ''a.js'' ''lib'') :: unit exn + bool) = Inr False"
proof -
  have p: "(getParent example_lib :: unit exn + node_ref option) =
      getParent (dir_node ''other'' None [])"
    and q: "(getParent example_lib :: unit exn + node_ref option) = Inr None"
    and r: "(getParent (file_node ''lib'' ''a.js'' ''lib'') :: unit exn + node_ref option) =
      Inr (Some ''lib'')"
    by (simp_all add: example_lib_def dir_node_def file_node_def getParent_def)
  have "(isRoot example_lib :: unit exn + bool) = isRoot (dir_node ''other'' None [])"
    and "(isRoot example_lib :: unit exn + bool) = Inr True"
    using isRoot_derived_from_getParent [of example_lib "dir_node ''other'' None []",
        where ?'x = unit] p q
    by blast+
  moreover have "(isRoot (file_node ''lib'' ''a.js'' ''lib'') :: unit exn + bool) = Inr False"
    using isRoot_derived_from_getParent [of "file_node ''lib'' ''a.js'' ''lib''" example_lib,
        where ?'x = unit] r
    by blast
  ultimately show ?thesis using p by simp
qed

section \<open>Properties of the visitor wrappers\<close>

text \<open>
  Members that record, under a tag, every call they receive; a member is passed either
  raw or already wrapped.
\<close>

definition tagged_recorder :: "nat \<Rightarrow> ('s, (nat \<times> cbname \<times> node \<times> 's) list, 'x) delegate" where
  "tagged_recorder i f = Callable (\<lambda>node state log. Done (log @ [(i, f, node, state)]))"

fun tagged_member :: "nat \<times> bool \<Rightarrow> ('s, (nat \<times> cbname \<times> node \<times> 's) list, 'x) vobj" where
  "tagged_member (i, raw) =
     (if raw then Raw (tagged_recorder i) else Inst (Visitor (tagged_recorder i)))"

lemma on_forEach_append:
  "on_forEach (xs @ ys) f node state w =
     andThen (on_forEach xs f node state w) (on_forEach ys f node state)"
proof (induction xs arbitrary: w)
  case Nil
  show ?case by simp
next
  case (Cons v xs)
  have "on_forEach (xs @ ys) f node state =
      (\<lambda>w. andThen (on_forEach xs f node state w) (on_forEach ys f node state))"
    using Cons.IH by (intro ext)
  then show ?case by (simp add: andThen_assoc)
qed

lemma on_forEach_Cons_fun:
  "on_forEach (v # vs) f node state =
     (\<lambda>w. andThen (on v f node state w) (on_forEach vs f node state))"
  by (intro ext) simp

lemma on_forEach_Nil_fun: "on_forEach [] f node state = Done"
  by (intro ext) simp

lemma on_tagged_member:
  "on (wrap (tagged_member m)) f node state log = Done (log @ [(fst m, f, node, state)])"
  by (cases m) (simp add: tagged_recorder_def)

lemma on_forEach_tagged:
  "on_forEach (map (wrap \<circ> tagged_member) ms) f node state log =
     Done (log @ map (\<lambda>m. (fst m, f, node, state)) ms)"
  by (induction ms arbitrary: log) (simp_all add: on_tagged_member)

text \<open>
  Claim C3.  \<open>new CompositeVisitor(v)\<close> for a single object is
  \<open>new CompositeVisitor([v])\<close>; the members are the elements of the array, each raw
  element wrapped in a \<open>Visitor\<close> and each instance kept as it is.  Every callback of
  the composite calls the same callback on each member in array order, with the node and
  state it received: on \<open>vs1 @ m # vs2\<close> the members of \<open>vs1\<close> come first, then \<open>m\<close>,
  then the members of \<open>vs2\<close>.  For \<open>[v1, v2]\<close>, \<open>onDetail\<close> is \<open>v1\<close>'s \<open>onDetail\<close>
  followed by \<open>v2\<close>'s.  With recording members the log gains one entry per member, in
  registration order, all with the same callback name, node and state.
\<close>

theorem CompositeVisitor_fan_out:
  "new_CompositeVisitor (Single v) = new_CompositeVisitor (Array [v])
   \<and> new_CompositeVisitor (Array vs) = CompositeVisitor (map wrap vs)
   \<and> wrap (Raw delegate) = Visitor delegate \<and> wrap (Inst i) = i
   \<and> on (new_CompositeVisitor (Array (vs1 @ m # vs2))) f node state w =
       andThen (on_forEach (map wrap vs1) f node state w)
         (\<lambda>w1. andThen (on (wrap m) f node state w1)
           (on_forEach (map wrap vs2) f node state))
   \<and> on (new_CompositeVisitor (Array [v1, v2])) Detail node state w =
       andThen (on (wrap v1) Detail node state w) (on (wrap v2) Detail node state)
   \<and> on (new_CompositeVisitor (Array
          (map tagged_member ms :: ('t, (nat \<times> cbname \<times> node \<times> 't) list, 'y) vobj list)))
        f node' state' log =
       Done (log @ map (\<lambda>m. (fst m, f, node', state')) ms)"
  by (simp add: new_CompositeVisitor_def on_forEach_append on_forEach_Cons_fun
      on_forEach_Nil_fun andThen_Done on_forEach_tagged)

theorem CompositeVisitor_fan_out_witness:
  "on (new_CompositeVisitor
        (Array [Raw (tagged_recorder 1), Inst (Visitor (tagged_recorder 2))]))
      Detail example_lib () ([] :: (nat \<times> cbname \<times> node \<times> unit) list) =
     (Done [(1, Detail, example_lib, ()), (2, Detail, example_lib, ())]
        :: (unit, (nat \<times> cbname \<times> node \<times> unit) list) outcome)"
proof -
  have "on (new_CompositeVisitor (Array
          (map tagged_member [(1, True), (2, False)]
            :: (unit, (nat \<times> cbname \<times> node \<times> unit) list, unit) vobj list)))
        Detail example_lib () [] =
      Done ([] @ map (\<lambda>m. (fst m, Detail, example_lib, ())) [(1, True), (2, False)])"
    by (rule CompositeVisitor_fan_out
        [THEN conjunct2, THEN conjunct2, THEN conjunct2, THEN conjunct2, THEN conjunct2,
         THEN conjunct2])
  then show ?thesis by simp
qed

text \<open>
  A slot is callable when it holds a function; a delegate never throws when none of its
  functions does.
\<close>

fun callable :: "('s, 'w, 'x) slot \<Rightarrow> bool" where
  "callable (Callable g) = True"
| "callable _ = False"

lemma run_calls_drop_absent:
  "run_calls (Inst (Visitor delegate)) state calls w =
     run_calls (Inst (Visitor delegate)) state
       (filter (\<lambda>c. callable (delegate (fst c))) calls) w"
proof (induction calls arbitrary: w)
  case Nil
  show ?case by simp
next
  case (Cons c calls)
  obtain f n where c: "c = (f, n)" by (cases c)
  have rest: "run_calls (Inst (Visitor delegate)) state calls =
      run_calls (Inst (Visitor delegate)) state
        (filter (\<lambda>c. callable (delegate (fst c))) calls)"
    using Cons.IH by (intro ext)
  show ?case
    by (cases "delegate f") (simp_all add: c rest)
qed

definition never_throws :: "('s, 'w, 'x) delegate \<Rightarrow> bool" where
  "never_throws delegate =
     (\<forall>f g. delegate f = Callable g \<longrightarrow> (\<forall>node state w. \<exists>w'. g node state w = Done w'))"

lemma run_calls_never_throws:
  assumes "never_throws delegate"
  shows "\<exists>w'. run_calls (Inst (Visitor delegate)) state calls w = Done w'"
proof (induction calls arbitrary: w)
  case Nil
  show ?case by simp
next
  case (Cons c calls)
  obtain f n where c: "c = (f, n)" by (cases c)
  show ?case
  proof (cases "delegate f")
    case (Callable g)
    then obtain w1 where "g n state w = Done w1"
      using assms unfolding never_throws_def by blast
    then show ?thesis using Callable Cons.IH [of w1] by (simp add: c)
  qed (use Cons.IH [of w] in \<open>simp_all add: c\<close>)
qed

text \<open>
  Claim C4.  A callback absent from a raw partial visitor is a no-op once the visitor is
  wrapped (where the same call on the raw object would be a \<open>TypeError\<close>).  So
  \<open>Tree.visit\<close> with a raw partial visitor does exactly what the calls to the callbacks
  it implements do, the other calls dropped; and when the callbacks it implements do not
  throw, the traversal does not throw.
\<close>

theorem absent_callbacks_do_nothing:
  assumes "ov_getRoot t = Some root" and "concrete root"
  shows "(\<not> callable (delegate f) \<longrightarrow>
            on (wrap (Raw delegate)) f node state w = Done w
            \<and> call_on (Raw delegate) f node state w = Threw (not_a_function f) w)
    \<and> Tree_visit (Raw delegate) state t w =
        run_calls (Inst (Visitor delegate)) state
          (filter (\<lambda>c. callable (delegate (fst c))) (spec_tree_calls root)) w
    \<and> (never_throws delegate \<longrightarrow> (\<exists>w'. Tree_visit (Raw delegate) state t w = Done w'))"
proof -
  have "\<not> callable (delegate f) \<Longrightarrow>
      on (wrap (Raw delegate)) f node state w = Done w
      \<and> call_on (Raw delegate) f node state w = Threw (not_a_function f) w"
    by (cases "delegate f") simp_all
  moreover have tv: "Tree_visit (Raw delegate) state t w =
      run_calls (Inst (Visitor delegate)) state (spec_tree_calls root) w"
    using Tree_visit_refines [OF assms, of "Raw delegate" state w] by simp
  moreover have "\<exists>w'. Tree_visit (Raw delegate) state t w = Done w'" if "never_throws delegate"
    unfolding tv using that by (rule run_calls_never_throws)
  ultimately show ?thesis
    using run_calls_drop_absent [of delegate state "spec_tree_calls root" w] by simp
qed

definition summary_end_only :: "(unit, (cbname \<times> node \<times> unit) list, unit) delegate" where
  "summary_end_only f = (if f = SummaryEnd then recorder f else Absent)"

lemma never_throws_summary_end_only: "never_throws summary_end_only"
  by (auto simp: never_throws_def summary_end_only_def recorder_def split: if_splits)

theorem absent_callbacks_do_nothing_witness:
  "ov_getRoot example_tree = Some example_lib \<and> concrete example_lib
   \<and> \<not> callable (summary_end_only Detail) \<and> never_throws summary_end_only
   \<and> on (wrap (Raw summary_end_only)) Detail example_lib () [] = Done []
   \<and> Tree_visit (Raw summary_end_only) () example_tree [] = Done [(SummaryEnd, example_lib, ())]"
proof -
  have r: "ov_getRoot example_tree = Some example_lib"
    by (simp add: example_tree_def)
  have c: "\<not> callable (summary_end_only Detail)"
    by (simp add: summary_end_only_def)
  have "run_calls (Inst (Visitor summary_end_only)) ()
      (filter (\<lambda>c. callable (summary_end_only (fst c))) (spec_tree_calls example_lib)) [] =
      Done [(SummaryEnd, example_lib, ())]"
    by (simp add: spec_tree_calls_def example_lib_def dir_node_def file_node_def
        spec_visit_calls.simps children_def summary_def recorder_def summary_end_only_def)
  then show ?thesis
    using absent_callbacks_do_nothing [OF r concrete_example_lib,
        of summary_end_only Detail example_lib "()" "[]"]
      r c concrete_example_lib never_throws_summary_end_only
    by simp
qed

section \<open>Failure of a callback\<close>

lemma run_calls_failure:
  assumes "run_calls visitor state pre w = Done w1"
    and "call_on visitor f node state w1 = Threw e w2"
  shows "run_calls visitor state (pre @ (f, node) # post) w = Threw e w2"
  using assms by (simp add: run_calls_append)

lemma on_forEach_failure:
  assumes "on_forEach pre f node state w = Done w1"
    and "on v f node state w1 = Threw e w2"
  shows "on_forEach (pre @ v # post) f node state w = Threw e w2"
  using assms by (simp add: on_forEach_append)

text \<open>
  Claim C6.  A value thrown by a delegate's callback is thrown, unchanged, by the
  \<open>Visitor\<close> method that called it; thrown by a member's method it is thrown, unchanged,
  by the \<open>CompositeVisitor\<close> method, and the members after the failing one are not
  called.  When the calls of \<open>Node.visit\<close> or \<open>Tree.visit\<close> before some call have all
  returned, leaving world \<open>w1\<close>, and that call throws \<open>e\<close> leaving world \<open>w2\<close>, the
  visit throws \<open>e\<close> and leaves \<open>w2\<close>: the error is neither caught nor replaced, no
  later call is made, and what the earlier callbacks did to the world stays.  Nodes and
  trees are values here, which a visit reads and never returns, so a failed visit leaves
  no changed tree behind.
\<close>

theorem callback_failure_propagates:
  "(delegate f = Callable g \<and> g node state w = Threw e w2 \<longrightarrow>
      on (Visitor delegate) f node state w = Threw e w2)
   \<and> (on_forEach (map wrap before) f node state w = Done w1 \<and>
       on (wrap member) f node state w1 = Threw e w2 \<longrightarrow>
      on (new_CompositeVisitor (Array (before @ member # after))) f node state w = Threw e w2)
   \<and> (concrete n \<and> spec_visit_calls n = pre @ (f, node) # post \<and>
       run_calls visitor state pre w = Done w1 \<and>
       call_on visitor f node state w1 = Threw e w2 \<longrightarrow>
      Node_visit visitor state n w = Threw e w2)
   \<and> (ov_getRoot t = Some root \<and> concrete root \<and>
       spec_tree_calls root = pre @ (f, node) # post \<and>
       run_calls (Inst (wrap visitor)) state pre w = Done w1 \<and>
       on (wrap visitor) f node state w1 = Threw e w2 \<longrightarrow>
      Tree_visit visitor state t w = Threw e w2)"
proof (intro conjI impI)
  assume "delegate f = Callable g \<and> g node state w = Threw e w2"
  then show "on (Visitor delegate) f node state w = Threw e w2" by simp
next
  assume "on_forEach (map wrap before) f node state w = Done w1 \<and>
    on (wrap member) f node state w1 = Threw e w2"
  then show "on (new_CompositeVisitor (Array (before @ member # after))) f node state w =
      Threw e w2"
    by (simp add: new_CompositeVisitor_def on_forEach_failure)
next
  assume a: "concrete n \<and> spec_visit_calls n = pre @ (f, node) # post \<and>
    run_calls visitor state pre w = Done w1 \<and> call_on visitor f node state w1 = Threw e w2"
  then have "run_calls visitor state (spec_visit_calls n) w = Threw e w2"
    by (simp add: run_calls_failure)
  with a show "Node_visit visitor state n w = Threw e w2"
    by (simp add: visit_refines)
next
  assume a: "ov_getRoot t = Some root \<and> concrete root \<and>
    spec_tree_calls root = pre @ (f, node) # post \<and>
    run_calls (Inst (wrap visitor)) state pre w = Done w1 \<and>
    on (wrap visitor) f node state w1 = Threw e w2"
  then have "run_calls (Inst (wrap visitor)) state (spec_tree_calls root) w = Threw e w2"
    by (simp add: run_calls_failure)
  with a show "Tree_visit visitor state t w = Threw e w2"
    by (simp add: Tree_visit_refines)
qed

definition failing_callback :: "cbname \<Rightarrow> (unit, (cbname \<times> node \<times> unit) list, string) callback" where
  "failing_callback f node state log =
     (if f = Detail \<and> ov_getRelativeName node = Some ''b.js''
      then Threw (Other ''disk full'') (log @ [(f, node, state)])
      else Done (log @ [(f, node, state)]))"

definition failing_recorder :: "(unit, (cbname \<times> node \<times> unit) list, string) delegate" where
  "failing_recorder f = Callable (failing_callback f)"

theorem callback_failure_propagates_witness:
  "on (Visitor failing_recorder) Detail (file_node ''lib'' ''b.js'' ''lib'') () [] =
     Threw (Other ''disk full'') [(Detail, file_node ''lib'' ''b.js'' ''lib'', ())]
   \<and> on (new_CompositeVisitor (Array ([Raw recorder] @ Raw failing_recorder # [Raw recorder])))
        Detail (file_node ''lib'' ''b.js'' ''lib'') () [] =
     Threw (Other ''disk full'')
       [(Detail, file_node ''lib'' ''b.js'' ''lib'', ()),
        (Detail, file_node ''lib'' ''b.js'' ''lib'', ())]
   \<and> Node_visit (Raw failing_recorder) () example_lib [] =
     Threw (Other ''disk full'')
       [(Summary, example_lib, ()),
        (Detail, file_node ''lib'' ''a.js'' ''lib'', ()),
        (Detail, file_node ''lib'' ''b.js'' ''lib'', ())]
   \<and> Tree_visit (Raw failing_recorder) () example_tree [] =
     Threw (Other ''disk full'')
       [(Start, example_lib, ()),
        (Summary, example_lib, ()),
        (Detail, file_node ''lib'' ''a.js'' ''lib'', ()),
        (Detail, file_node ''lib'' ''b.js'' ''lib'', ())]"
proof -
  let ?a = "file_node ''lib'' ''a.js'' ''lib''"
  let ?b = "file_node ''lib'' ''b.js'' ''lib''"
  let ?e = "Other ''disk full'' :: string exn"
  have r: "ov_getRoot example_tree = Some example_lib"
    by (simp add: example_tree_def)
  have cb: "failing_callback Detail ?b () log = Threw ?e (log @ [(Detail, ?b, ())])" for log
    by (simp add: failing_callback_def file_node_def)
  have one: "on (Visitor failing_recorder) Detail ?b () [] = Threw ?e [(Detail, ?b, ())]"
    using callback_failure_propagates
      [where delegate = failing_recorder and f = Detail and g = "failing_callback Detail"
        and node = ?b and state = "()" and w = "[]" and e = ?e and ?w2.0 = "[(Detail, ?b, ())]",
        THEN conjunct1]
    by (simp add: failing_recorder_def cb)
  have two: "on (new_CompositeVisitor (Array ([Raw recorder] @ Raw failing_recorder # [Raw recorder])))
      Detail ?b () [] = Threw ?e [(Detail, ?b, ()), (Detail, ?b, ())]"
    using callback_failure_propagates
      [where before = "[Raw recorder]" and member = "Raw failing_recorder" and after = "[Raw recorder]"
        and f = Detail and node = ?b and state = "()" and w = "[]" and e = ?e
        and ?w1.0 = "[(Detail, ?b, ())]" and ?w2.0 = "[(Detail, ?b, ()), (Detail, ?b, ())]",
        THEN conjunct2, THEN conjunct1]
    by (simp add: failing_recorder_def cb recorder_def)
  have calls: "spec_visit_calls example_lib =
      [(Summary, example_lib), (Detail, ?a)] @ (Detail, ?b) # [(SummaryEnd, example_lib)]"
    by (simp add: example_lib_def dir_node_def file_node_def spec_visit_calls.simps
        children_def summary_def)
  have pre: "run_calls (Raw failing_recorder) () [(Summary, example_lib), (Detail, ?a)] [] =
      Done [(Summary, example_lib, ()), (Detail, ?a, ())]"
    by (simp add: failing_recorder_def failing_callback_def file_node_def)
  have three: "Node_visit (Raw failing_recorder) () example_lib [] =
      Threw ?e [(Summary, example_lib, ()), (Detail, ?a, ()), (Detail, ?b, ())]"
    using callback_failure_propagates
      [where n = example_lib and pre = "[(Summary, example_lib), (Detail, ?a)]"
        and post = "[(SummaryEnd, example_lib)]" and visitor = "Raw failing_recorder"
        and f = Detail and node = ?b and state = "()" and w = "[]" and e = ?e
        and ?w1.0 = "[(Summary, example_lib, ()), (Detail, ?a, ())]"
        and ?w2.0 = "[(Summary, example_lib, ()), (Detail, ?a, ()), (Detail, ?b, ())]",
        THEN conjunct2, THEN conjunct2, THEN conjunct1]
      concrete_example_lib calls pre
    by (simp add: failing_recorder_def cb)
  have tcalls: "spec_tree_calls example_lib =
      [(Start, example_lib), (Summary, example_lib), (Detail, ?a)] @ (Detail, ?b) #
      [(SummaryEnd, example_lib), (End, example_lib)]"
    by (simp add: spec_tree_calls_def calls)
  have tpre: "run_calls (Inst (wrap (Raw failing_recorder))) ()
      [(Start, example_lib), (Summary, example_lib), (Detail, ?a)] [] =
      Done [(Start, example_lib, ()), (Summary, example_lib, ()), (Detail, ?a, ())]"
    by (simp add: failing_recorder_def failing_callback_def file_node_def)
  have four: "Tree_visit (Raw failing_recorder) () example_tree [] =
      Threw ?e [(Start, example_lib, ()), (Summary, example_lib, ()), (Detail, ?a, ()),
        (Detail, ?b, ())]"
    using callback_failure_propagates
      [where t = example_tree and root = example_lib
        and pre = "[(Start, example_lib), (Summary, example_lib), (Detail, ?a)]"
        and post = "[(SummaryEnd, example_lib), (End, example_lib)]"
        and visitor = "Raw failing_recorder"
        and f = Detail and node = ?b and state = "()" and w = "[]" and e = ?e
        and ?w1.0 = "[(Start, example_lib, ()), (Summary, example_lib, ()), (Detail, ?a, ())]"
        and ?w2.0 = "[(Start, example_lib, ()), (Summary, example_lib, ()), (Detail, ?a, ()),
          (Detail, ?b, ())]",
        THEN conjunct2, THEN conjunct2, THEN conjunct2]
      concrete_example_lib r tcalls tpre
    by (simp add: failing_recorder_def cb)
  show ?thesis using one two three four by simp
qed

section \<open>Repeated visits\<close>

text \<open>
  To observe the sequence of callbacks a visit invokes, each function of a delegate is
  replaced by a spy that appends the call (name, node, state) to a log kept beside the
  world and then runs the function.  A visitor is stateless when whether a callback
  throws, and what, does not depend on the world it runs in.
\<close>

type_synonym 's event = "cbname \<times> node \<times> 's"

fun spy_callback :: "cbname \<Rightarrow> ('s, 'w, 'x) callback \<Rightarrow> ('s, 'w \<times> 's event list, 'x) callback" where
  "spy_callback f g node state (w, log) =
     (case g node state w of
        Done w' \<Rightarrow> Done (w', log @ [(f, node, state)])
      | Threw e w' \<Rightarrow> Threw e (w', log @ [(f, node, state)]))"

definition spy :: "('s, 'w, 'x) delegate \<Rightarrow> ('s, 'w \<times> 's event list, 'x) delegate" where
  "spy delegate f =
     (case delegate f of
        Absent \<Rightarrow> Absent
      | NotCallable \<Rightarrow> NotCallable
      | Callable g \<Rightarrow> Callable (spy_callback f g))"

fun spy_visitor :: "('s, 'w, 'x) visitor \<Rightarrow> ('s, 'w \<times> 's event list, 'x) visitor" where
  "spy_visitor (Visitor delegate) = Visitor (spy delegate)"
| "spy_visitor (CompositeVisitor visitors) = CompositeVisitor (map spy_visitor visitors)"

fun spy_vobj :: "('s, 'w, 'x) vobj \<Rightarrow> ('s, 'w \<times> 's event list, 'x) vobj" where
  "spy_vobj (Raw delegate) = Raw (spy delegate)"
| "spy_vobj (Inst v) = Inst (spy_visitor v)"

fun thrown :: "('x, 'w) outcome \<Rightarrow> 'x exn option" where
  "thrown (Done w) = None"
| "thrown (Threw e w) = Some e"

fun world :: "('x, 'w) outcome \<Rightarrow> 'w" where
  "world (Done w) = w"
| "world (Threw e w) = w"

definition trace :: "('x, 'w \<times> 's event list) outcome \<Rightarrow> 's event list" where
  "trace r = snd (world r)"

definition stateless_delegate :: "('s, 'w, 'x) delegate \<Rightarrow> bool" where
  "stateless_delegate delegate =
     (\<forall>f g. delegate f = Callable g \<longrightarrow>
        (\<forall>node state w w'. thrown (g node state w) = thrown (g node state w')))"

fun stateless :: "('s, 'w, 'x) visitor \<Rightarrow> bool" where
  "stateless (Visitor delegate) = stateless_delegate delegate"
| "stateless (CompositeVisitor visitors) = list_all stateless visitors"

definition uniform :: "('w \<times> 's event list \<Rightarrow> ('x, 'w \<times> 's event list) outcome) \<Rightarrow> bool" where
  "uniform m =
     ((\<exists>evs. \<forall>w log. trace (m (w, log)) = log @ evs) \<and>
      (\<forall>a b. thrown (m a) = thrown (m b)))"

lemma uniform_Done: "uniform Done"
  by (simp add: uniform_def trace_def)

lemma uniform_andThen:
  assumes m: "uniform m" and k: "uniform k"
  shows "uniform (\<lambda>a. andThen (m a) k)"
proof -
  from m obtain xs where xs: "\<And>w log. trace (m (w, log)) = log @ xs"
    and tm: "\<And>a b. thrown (m a) = thrown (m b)"
    unfolding uniform_def by blast
  from k obtain ys where ys: "\<And>w log. trace (k (w, log)) = log @ ys"
    and tk: "\<And>a b. thrown (k a) = thrown (k b)"
    unfolding uniform_def by blast
  show ?thesis
  proof (cases "\<exists>a. thrown (m a) = None")
    case True
    then have all: "thrown (m a) = None" for a using tm by metis
    have step: "\<exists>w' log'. m a = Done (w', log')" for a
      using all [of a] by (cases "m a") auto
    have "trace (andThen (m (w, log)) k) = log @ (xs @ ys)" for w log
    proof -
      obtain w' log' where d: "m (w, log) = Done (w', log')" using step by blast
      have "log' = log @ xs" using xs [of w log] by (simp add: d trace_def)
      then show ?thesis by (simp add: d ys)
    qed
    moreover have "thrown (andThen (m a) k) = thrown (andThen (m b) k)" for a b
    proof -
      obtain wa la wb lb where "m a = Done (wa, la)" "m b = Done (wb, lb)"
        using step by blast
      then show ?thesis using tk by simp
    qed
    ultimately show ?thesis unfolding uniform_def by blast
  next
    case False
    have step: "\<exists>e w'. m a = Threw e w'" for a
    proof (cases "m a")
      case (Done w1)
      then have "thrown (m a) = None" by simp
      with False show ?thesis by blast
    qed simp
    have "trace (andThen (m (w, log)) k) = log @ xs" for w log
    proof -
      obtain e w' where d: "m (w, log) = Threw e w'" using step by blast
      then show ?thesis using xs [of w log] by simp
    qed
    moreover have "thrown (andThen (m a) k) = thrown (andThen (m b) k)" for a b
    proof -
      obtain ea wa eb wb where d: "m a = Threw ea wa" "m b = Threw eb wb"
        using step by blast
      then show ?thesis using tm [of a b] by simp
    qed
    ultimately show ?thesis unfolding uniform_def by blast
  qed
qed

lemma uniform_spy_callback:
  assumes "\<And>w w'. thrown (g node state w) = thrown (g node state w')"
  shows "uniform (spy_callback f g node state)"
proof -
  have "trace (spy_callback f g node state (w, log)) = log @ [(f, node, state)]" for w log
    by (cases "g node state w") (simp_all add: trace_def)
  moreover have "thrown (spy_callback f g node state a) = thrown (spy_callback f g node state b)"
    for a b
  proof -
    obtain wa la wb lb where ab: "a = (wa, la)" "b = (wb, lb)"
      by (cases a, cases b) auto
    show ?thesis
      using assms [of wa wb]
      by (cases "g node state wa"; cases "g node state wb") (simp_all add: ab)
  qed
  ultimately show ?thesis unfolding uniform_def by blast
qed

lemma uniform_on_forEach:
  assumes "\<And>v. v \<in> set vs \<Longrightarrow> uniform (on v f node state)"
  shows "uniform (on_forEach vs f node state)"
  using assms
proof (induction vs)
  case Nil
  show ?case by (simp add: on_forEach_Nil_fun uniform_Done)
next
  case (Cons v vs)
  have "uniform (on v f node state)" and "uniform (on_forEach vs f node state)"
    using Cons by simp_all
  then show ?case
    unfolding on_forEach_Cons_fun by (rule uniform_andThen)
qed

lemma on_Visitor_fun:
  "on (Visitor delegate) f node state =
     (case delegate f of Callable g \<Rightarrow> g node state | _ \<Rightarrow> Done)"
  by (intro ext) (simp split: slot.splits)

lemma on_CompositeVisitor_fun:
  "on (CompositeVisitor vs) f node state = on_forEach vs f node state"
  by (intro ext) simp

lemma uniform_on: "stateless v \<Longrightarrow> uniform (on (spy_visitor v) f node state)"
proof (induction v)
  case (Visitor delegate)
  show ?case
  proof (cases "delegate f")
    case (Callable g)
    then have "thrown (g node state w) = thrown (g node state w')" for w w'
      using Visitor unfolding stateless.simps stateless_delegate_def by blast
    then have "uniform (spy_callback f g node state)"
      by (rule uniform_spy_callback)
    then show ?thesis by (simp add: on_Visitor_fun spy_def Callable)
  qed (simp_all add: on_Visitor_fun spy_def uniform_Done)
next
  case (CompositeVisitor vs)
  have "uniform (on v' f node state)" if "v' \<in> set (map spy_visitor vs)" for v'
  proof -
    from that obtain v where v: "v \<in> set vs" and v': "v' = spy_visitor v" by auto
    have "stateless v" using CompositeVisitor.prems v by (simp add: list_all_iff)
    then show ?thesis unfolding v' using v by (rule CompositeVisitor.IH [rotated])
  qed
  then have "uniform (on_forEach (map spy_visitor vs) f node state)"
    by (rule uniform_on_forEach)
  then show ?case by (simp add: on_CompositeVisitor_fun)
qed

lemma uniform_run_calls:
  assumes "stateless v"
  shows "uniform (run_calls (Inst (spy_visitor v)) state calls)"
proof (induction calls)
  case Nil
  show ?case by (simp add: run_calls_Nil_fun uniform_Done)
next
  case (Cons c calls)
  obtain f n where c: "c = (f, n)" by (cases c)
  have eq: "run_calls (Inst (spy_visitor v)) state (c # calls) =
      (\<lambda>a. andThen (on (spy_visitor v) f n state a)
        (run_calls (Inst (spy_visitor v)) state calls))"
    by (intro ext) (simp add: c)
  show ?case
    unfolding eq using uniform_on [OF assms] Cons.IH by (rule uniform_andThen)
qed

lemma wrap_spy_vobj: "wrap (spy_vobj visitor) = spy_visitor (wrap visitor)"
  by (cases visitor) simp_all

text \<open>
  Claim C7.  For a stateless visitor and a concrete tree, the sequence of callbacks a
  visit invokes is the same whatever the world it starts in: a visit started in any world
  \<open>w'\<close> with log \<open>log\<close> (for instance, those the first visit left) appends to the log
  exactly the sequence that the visit started in \<open>w\<close> with an empty log records, and it
  throws the same value or neither throws.
\<close>

theorem stateless_visits_repeat_the_callback_sequence:
  assumes "ov_getRoot t = Some root" and "concrete root" and "stateless (wrap visitor)"
  shows "trace (Tree_visit (spy_vobj visitor) state t (w', log)) =
      log @ trace (Tree_visit (spy_vobj visitor) state t (w, []))
    \<and> thrown (Tree_visit (spy_vobj visitor) state t (w', log)) =
      thrown (Tree_visit (spy_vobj visitor) state t (w, []))"
proof -
  let ?run = "run_calls (Inst (spy_visitor (wrap visitor))) state (spec_tree_calls root)"
  have tv: "Tree_visit (spy_vobj visitor) state t a = ?run a" for a
    using Tree_visit_refines [OF assms(1,2), of "spy_vobj visitor" state a]
    by (simp add: wrap_spy_vobj)
  have "uniform ?run"
    using assms(3) by (rule uniform_run_calls)
  then obtain evs where evs: "\<And>w log. trace (?run (w, log)) = log @ evs"
    and th: "\<And>a b. thrown (?run a) = thrown (?run b)"
    unfolding uniform_def by blast
  show ?thesis
    using evs [of w' log] evs [of w "[]"] th [of "(w', log)" "(w, [])"] by (simp add: tv)
qed

definition counter :: "(unit, nat, unit) delegate" where
  "counter f = Callable (\<lambda>node state n. Done (Suc n))"

lemma stateless_counter: "stateless (wrap (Raw counter))"
  by (simp add: stateless_delegate_def counter_def)

theorem stateless_visits_repeat_the_callback_sequence_witness:
  "ov_getRoot example_tree = Some example_lib \<and> concrete example_lib
   \<and> stateless (wrap (Raw counter))
   \<and> Tree_visit (spy_vobj (Raw counter)) () example_tree (0, []) =
       Done (6, [(Start, example_lib, ()), (Summary, example_lib, ()),
                 (Detail, file_node ''lib'' ''a.js'' ''lib'', ()),
                 (Detail, file_node ''lib'' ''b.js'' ''lib'', ()),
                 (SummaryEnd, example_lib, ()), (End, example_lib, ())])
   \<and> trace (Tree_visit (spy_vobj (Raw counter)) () example_tree (6, [])) =
       [(Start, example_lib, ()), (Summary, example_lib, ()),
        (Detail, file_node ''lib'' ''a.js'' ''lib'', ()),
        (Detail, file_node ''lib'' ''b.js'' ''lib'', ()),
        (SummaryEnd, example_lib, ()), (End, example_lib, ())]"
proof -
  have r: "ov_getRoot example_tree = Some example_lib"
    by (simp add: example_tree_def)
  have "run_calls (Inst (wrap (spy_vobj (Raw counter)))) () (spec_tree_calls example_lib) (0, []) =
      Done (6, [(Start, example_lib, ()), (Summary, example_lib, ()),
                (Detail, file_node ''lib'' ''a.js'' ''lib'', ()),
                (Detail, file_node ''lib'' ''b.js'' ''lib'', ()),
                (SummaryEnd, example_lib, ()), (End, example_lib, ())])"
    by (simp add: spec_tree_calls_def example_lib_def dir_node_def file_node_def
        spec_visit_calls.simps children_def summary_def counter_def spy_def)
  then have first: "Tree_visit (spy_vobj (Raw counter)) () example_tree (0, []) =
      Done (6, [(Start, example_lib, ()), (Summary, example_lib, ()),
                (Detail, file_node ''lib'' ''a.js'' ''lib'', ()),
                (Detail, file_node ''lib'' ''b.js'' ''lib'', ()),
                (SummaryEnd, example_lib, ()), (End, example_lib, ())])"
    by (simp only: Tree_visit_refines [OF r concrete_example_lib])
  show ?thesis
    using stateless_visits_repeat_the_callback_sequence
      [OF r concrete_example_lib stateless_counter, of "()" 6 "[]" 0]
      r concrete_example_lib stateless_counter first
    by (simp add: trace_def)
qed

section \<open>The pkg summarizer\<close>

text \<open>
  Modelled from the spec: \<open>lib/summarizer.js\<close>, where \<open>createPackageSummary\<close> (exported
  as \<open>summarizers.pkg\<close>) is defined, is not among the sources, nor is its path helper.
  A path is decomposed into its segments between \<open>/\<close>; the containing directory of a
  file is the path without its last segment.
\<close>

fun split_segments :: "string \<Rightarrow> string \<Rightarrow> string list" where
  "split_segments cur [] = (if cur = [] then [] else [cur])"
| "split_segments cur (c # cs) =
     (if c = CHR ''/'' then (if cur = [] then [] else [cur]) @ split_segments [] cs
      else split_segments (cur @ [c]) cs)"

definition segments :: "string \<Rightarrow> string list" where
  "segments path = split_segments [] path"

fun join_path :: "string list \<Rightarrow> string" where
  "join_path [] = []"
| "join_path [s] = s"
| "join_path (s # ss) = s @ ''/'' @ join_path ss"

definition dirname :: "string \<Rightarrow> string list" where
  "dirname path = butlast (segments path)"

definition basename :: "string \<Rightarrow> string" where
  "basename path = (case segments path of [] \<Rightarrow> [] | ss \<Rightarrow> last ss)"

text \<open>
  Modelled from the spec: the coverage data is a mapping from file path to coverage
  record, kept in its iteration order.  There is one package node per unique containing
  directory, in order of first occurrence; its children are the detail nodes of the files
  directly inside it, in input order, and its coverage summary is the merge of those
  files' summaries.  A detail node wraps one record, has no children, and its summary
  is a view of the record.  The root is a summary node without parent whose children
  are the package nodes.
\<close>

type_synonym coverage_data = "(string \<times> file_coverage) list"

definition merge_all :: "coverage_summary list \<Rightarrow> coverage_summary" where
  "merge_all xs = foldl merge empty_summary xs"

definition files_in :: "coverage_data \<Rightarrow> string list \<Rightarrow> coverage_data" where
  "files_in cd dir = filter (\<lambda>(path, fc). dirname path = dir) cd"

definition unique_dirs :: "coverage_data \<Rightarrow> string list list" where
  "unique_dirs cd =
     foldl (\<lambda>dirs (path, fc). if dirname path \<in> set dirs then dirs else dirs @ [dirname path])
       [] cd"

definition detail_node :: "node_ref \<Rightarrow> string \<times> file_coverage \<Rightarrow> node" where
  "detail_node parent entry =
     Node (Some (fst entry)) (Some (basename (fst entry))) (Some (Some parent)) (Some [])
       (Some False) (Some (\<lambda>filesOnly. toSummary (snd entry))) (Some (Some (snd entry)))"

definition package_node :: "coverage_data \<Rightarrow> string list \<Rightarrow> node" where
  "package_node cd dir =
     Node (Some (join_path dir)) (Some (join_path dir)) (Some (Some ''''))
       (Some (map (detail_node (join_path dir)) (files_in cd dir)))
       (Some True)
       (Some (\<lambda>filesOnly. merge_all (map (\<lambda>entry. toSummary (snd entry)) (files_in cd dir))))
       (Some None)"

definition root_node :: "coverage_data \<Rightarrow> node" where
  "root_node cd =
     Node (Some '''') (Some '''') (Some None)
       (Some (map (package_node cd) (unique_dirs cd)))
       (Some True)
       (Some (\<lambda>filesOnly. if filesOnly then empty_summary
                           else merge_all (map (\<lambda>entry. toSummary (snd entry)) cd)))
       (Some None)"

text \<open>
  Modelled from the spec: \<open>createPackageSummary\<close> fails with the "invalid coverage data"
  error kind when the argument is absent or a path has no segment, and otherwise
  returns the tree of the root node.
\<close>

definition createPackageSummary :: "coverage_data option \<Rightarrow> 'x exn + tree" where
  "createPackageSummary coverageData =
     (case coverageData of
        None \<Rightarrow> Inl (Error ''invalid coverage data'')
      | Some cd \<Rightarrow>
          if list_all (\<lambda>(path, fc). segments path \<noteq> []) cd
          then Inr (Tree (Some (root_node cd)))
          else Inl (Error ''invalid coverage data''))"

lemma set_foldl_dirs:
  "set (foldl (\<lambda>dirs (path, fc). if dirname path \<in> set dirs then dirs else dirs @ [dirname path])
       acc cd) = set acc \<union> (\<lambda>(path, fc). dirname path) ` set cd"
  by (induction cd arbitrary: acc) (auto split: prod.splits)

lemma distinct_foldl_dirs:
  "distinct acc \<Longrightarrow>
   distinct (foldl (\<lambda>dirs (path, fc). if dirname path \<in> set dirs then dirs else dirs @ [dirname path])
       acc cd)"
  by (induction cd arbitrary: acc) (auto split: prod.splits)

lemma set_unique_dirs: "set (unique_dirs cd) = (\<lambda>(path, fc). dirname path) ` set cd"
  by (simp add: unique_dirs_def set_foldl_dirs)

lemma distinct_unique_dirs: "distinct (unique_dirs cd)"
  by (simp add: unique_dirs_def distinct_foldl_dirs)

text \<open>
  Claim C5.  For coverage data whose paths all have a segment, the pkg summarizer returns
  a tree whose root is a summary node without parent; the root's children are package
  nodes, one for each containing directory of a file and no two for the same directory;
  each package node is a summary node named after its directory; its children are
  detail nodes without children, one for each file whose containing directory is that
  directory (files in deeper directories belong to another package), each named by its
  path, wrapping the file's record and returning the record's summary; and the package's
  coverage summary is the merge of the summaries its children return, that is, of the
  records of the files directly inside it and of no other.
\<close>

theorem createPackageSummary_two_levels:
  assumes "list_all (\<lambda>(path, fc). segments path \<noteq> []) cd"
  shows "\<exists>root pkgs dirs.
      (createPackageSummary (Some cd) :: 'x exn + tree) = Inr (Tree (Some root))
    \<and> (isSummary root :: 'x exn + bool) = Inr True
    \<and> (getParent root :: 'x exn + node_ref option) = Inr None
    \<and> (getChildren root :: 'x exn + node list) = Inr pkgs
    \<and> distinct dirs
    \<and> set dirs = (\<lambda>(path, fc). dirname path) ` set cd
    \<and> length pkgs = length dirs
    \<and> (\<forall>i < length dirs.
          (isSummary (pkgs ! i) :: 'x exn + bool) = Inr True
        \<and> (getQualifiedName (pkgs ! i) :: 'x exn + string) = Inr (join_path (dirs ! i))
        \<and> (\<exists>kids. (getChildren (pkgs ! i) :: 'x exn + node list) = Inr kids
            \<and> map (\<lambda>k. (getQualifiedName k :: 'x exn + string)) kids =
                map (\<lambda>(path, fc). Inr path)
                  (filter (\<lambda>(path, fc). dirname path = dirs ! i) cd)
            \<and> map (\<lambda>k. (getFileCoverage k :: 'x exn + file_coverage option)) kids =
                map (\<lambda>(path, fc). Inr (Some fc))
                  (filter (\<lambda>(path, fc). dirname path = dirs ! i) cd)
            \<and> (\<forall>k \<in> set kids.
                  (isSummary k :: 'x exn + bool) = Inr False
                \<and> (getChildren k :: 'x exn + node list) = Inr [])
            \<and> (\<forall>filesOnly.
                  map (\<lambda>k. (getCoverageSummary k filesOnly :: 'x exn + coverage_summary)) kids =
                    map Inr (map (\<lambda>(path, fc). toSummary fc)
                      (filter (\<lambda>(path, fc). dirname path = dirs ! i) cd))
                \<and> (getCoverageSummary (pkgs ! i) filesOnly :: 'x exn + coverage_summary) =
                    Inr (merge_all (map (\<lambda>(path, fc). toSummary fc)
                      (filter (\<lambda>(path, fc). dirname path = dirs ! i) cd))))))"
proof -
  let ?dirs = "unique_dirs cd"
  let ?pkgs = "map (package_node cd) ?dirs"
  have "\<forall>i < length ?dirs.
          (isSummary (?pkgs ! i) :: 'x exn + bool) = Inr True
        \<and> (getQualifiedName (?pkgs ! i) :: 'x exn + string) = Inr (join_path (?dirs ! i))
        \<and> (\<exists>kids. (getChildren (?pkgs ! i) :: 'x exn + node list) = Inr kids
            \<and> map (\<lambda>k. (getQualifiedName k :: 'x exn + string)) kids =
                map (\<lambda>(path, fc). Inr path)
                  (filter (\<lambda>(path, fc). dirname path = ?dirs ! i) cd)
            \<and> map (\<lambda>k. (getFileCoverage k :: 'x exn + file_coverage option)) kids =
                map (\<lambda>(path, fc). Inr (Some fc))
                  (filter (\<lambda>(path, fc). dirname path = ?dirs ! i) cd)
            \<and> (\<forall>k \<in> set kids.
                  (isSummary k :: 'x exn + bool) = Inr False
                \<and> (getChildren k :: 'x exn + node list) = Inr [])
            \<and> (\<forall>filesOnly.
                  map (\<lambda>k. (getCoverageSummary k filesOnly :: 'x exn + coverage_summary)) kids =
                    map Inr (map (\<lambda>(path, fc). toSummary fc)
                      (filter (\<lambda>(path, fc). dirname path = ?dirs ! i) cd))
                \<and> (getCoverageSummary (?pkgs ! i) filesOnly :: 'x exn + coverage_summary) =
                    Inr (merge_all (map (\<lambda>(path, fc). toSummary fc)
                      (filter (\<lambda>(path, fc). dirname path = ?dirs ! i) cd)))))"
    by (auto simp: package_node_def detail_node_def isSummary_def getQualifiedName_def
        getChildren_def getFileCoverage_def getCoverageSummary_def files_in_def
        comp_def case_prod_unfold)
  then show ?thesis
    using assms distinct_unique_dirs [of cd] set_unique_dirs [of cd]
    apply (intro exI [of _ "root_node cd"] exI [of _ ?pkgs] exI [of _ ?dirs])
    apply (simp add: createPackageSummary_def root_node_def isSummary_def getParent_def getChildren_def)
    done
qed

definition counts :: "nat \<Rightarrow> nat \<Rightarrow> coverage_summary" where
  "counts t c =
     \<lparr>cs_statements = \<lparr>total = t, covered = c, skipped = 0\<rparr>,
      cs_branches = \<lparr>total = t, covered = c, skipped = 0\<rparr>,
      cs_functions = \<lparr>total = t, covered = c, skipped = 0\<rparr>,
      cs_lines = \<lparr>total = t, covered = c, skipped = 0\<rparr>\<rparr>"

definition example_coverage :: coverage_data where
  "example_coverage =
     [(''lib/a.js'', \<lparr>fc_path = ''lib/a.js'', fc_counts = counts 10 5\<rparr>),
      (''lib/util/b.js'', \<lparr>fc_path = ''lib/util/b.js'', fc_counts = counts 4 4\<rparr>),
      (''lib/c.js'', \<lparr>fc_path = ''lib/c.js'', fc_counts = counts 6 1\<rparr>)]"

lemma dirname_examples:
  "dirname ''lib/a.js'' = [''lib'']"
  "dirname ''lib/util/b.js'' = [''lib'', ''util'']"
  "dirname ''lib/c.js'' = [''lib'']"
  by (simp_all add: dirname_def segments_def)

lemma unique_dirs_example: "unique_dirs example_coverage = [[''lib''], [''lib'', ''util'']]"
  by (simp add: unique_dirs_def example_coverage_def dirname_examples)

theorem createPackageSummary_two_levels_witness:
  "list_all (\<lambda>(path, fc). segments path \<noteq> []) example_coverage
   \<and> (createPackageSummary (Some example_coverage) :: unit exn + tree) =
       Inr (Tree (Some (root_node example_coverage)))
   \<and> map ov_getQualifiedName (children (root_node example_coverage)) =
       [Some ''lib'', Some ''lib/util'']
   \<and> map (\<lambda>p. map ov_getQualifiedName (children p)) (children (root_node example_coverage)) =
       [[Some ''lib/a.js'', Some ''lib/c.js''], [Some ''lib/util/b.js'']]
   \<and> (getCoverageSummary (children (root_node example_coverage) ! 0) False
        :: unit exn + coverage_summary) = Inr (counts 16 6)"
proof -
  have v: "list_all (\<lambda>(path, fc). segments path \<noteq> []) example_coverage"
    by (simp add: example_coverage_def segments_def)
  have t: "(createPackageSummary (Some example_coverage) :: unit exn + tree) =
      Inr (Tree (Some (root_node example_coverage)))"
    using v by (simp add: createPackageSummary_def)
  have pk: "children (root_node example_coverage) =
      [package_node example_coverage [''lib''], package_node example_coverage [''lib'', ''util'']]"
    by (simp add: root_node_def children_def unique_dirs_example)
  have f1: "files_in example_coverage [''lib''] =
      [(''lib/a.js'', \<lparr>fc_path = ''lib/a.js'', fc_counts = counts 10 5\<rparr>),
       (''lib/c.js'', \<lparr>fc_path = ''lib/c.js'', fc_counts = counts 6 1\<rparr>)]"
    and f2: "files_in example_coverage [''lib'', ''util''] =
      [(''lib/util/b.js'', \<lparr>fc_path = ''lib/util/b.js'', fc_counts = counts 4 4\<rparr>)]"
    by (simp_all add: files_in_def example_coverage_def dirname_examples)
  from createPackageSummary_two_levels [OF v, where ?'x = unit]
  obtain root pkgs dirs where
    r: "(createPackageSummary (Some example_coverage) :: unit exn + tree) = Inr (Tree (Some root))"
    and "(isSummary root :: unit exn + bool) = Inr True"
    and "(getParent root :: unit exn + node_ref option) = Inr None"
    and c: "(getChildren root :: unit exn + node list) = Inr pkgs"
    and "distinct dirs"
    and "set dirs = (\<lambda>(path, fc). dirname path) ` set example_coverage"
    and l: "length pkgs = length dirs"
    and a: "\<forall>i < length dirs.
          (isSummary (pkgs ! i) :: unit exn + bool) = Inr True
        \<and> (getQualifiedName (pkgs ! i) :: unit exn + string) = Inr (join_path (dirs ! i))
        \<and> (\<exists>kids. (getChildren (pkgs ! i) :: unit exn + node list) = Inr kids
            \<and> map (\<lambda>k. (getQualifiedName k :: unit exn + string)) kids =
                map (\<lambda>(path, fc). Inr path)
                  (filter (\<lambda>(path, fc). dirname path = dirs ! i) example_coverage)
            \<and> map (\<lambda>k. (getFileCoverage k :: unit exn + file_coverage option)) kids =
                map (\<lambda>(path, fc). Inr (Some fc))
                  (filter (\<lambda>(path, fc). dirname path = dirs ! i) example_coverage)
            \<and> (\<forall>k \<in> set kids.
                  (isSummary k :: unit exn + bool) = Inr False
                \<and> (getChildren k :: unit exn + node list) = Inr [])
            \<and> (\<forall>filesOnly.
                  map (\<lambda>k. (getCoverageSummary k filesOnly :: unit exn + coverage_summary)) kids =
                    map Inr (map (\<lambda>(path, fc). toSummary fc)
                      (filter (\<lambda>(path, fc). dirname path = dirs ! i) example_coverage))
                \<and> (getCoverageSummary (pkgs ! i) filesOnly :: unit exn + coverage_summary) =
                    Inr (merge_all (map (\<lambda>(path, fc). toSummary fc)
                      (filter (\<lambda>(path, fc). dirname path = dirs ! i) example_coverage)))))"
    by (elim exE conjE) (rule that)
  have root: "root = root_node example_coverage" using r t by simp
  have pkgs: "pkgs = children (root_node example_coverage)"
    using c by (simp add: root getChildren_def children_def root_node_def)
  have "length dirs = 2" using l by (simp add: pkgs pk)
  then have "0 < length dirs" by simp
  with a have "\<exists>kids. (getChildren (pkgs ! 0) :: unit exn + node list) = Inr kids
      \<and> (\<forall>filesOnly.
            map (\<lambda>k. (getCoverageSummary k filesOnly :: unit exn + coverage_summary)) kids =
              map Inr (map (\<lambda>(path, fc). toSummary fc)
                (filter (\<lambda>(path, fc). dirname path = dirs ! 0) example_coverage))
          \<and> (getCoverageSummary (pkgs ! 0) filesOnly :: unit exn + coverage_summary) =
              Inr (merge_all (map (\<lambda>(path, fc). toSummary fc)
                (filter (\<lambda>(path, fc). dirname path = dirs ! 0) example_coverage))))"
    by blast
  then obtain kids where
    k: "(getChildren (pkgs ! 0) :: unit exn + node list) = Inr kids"
    and ks: "map (\<lambda>k. (getCoverageSummary k False :: unit exn + coverage_summary)) kids =
      map Inr (map (\<lambda>(path, fc). toSummary fc)
        (filter (\<lambda>(path, fc). dirname path = dirs ! 0) example_coverage))"
    and s: "(getCoverageSummary (pkgs ! 0) False :: unit exn + coverage_summary) =
      Inr (merge_all (map (\<lambda>(path, fc). toSummary fc)
        (filter (\<lambda>(path, fc). dirname path = dirs ! 0) example_coverage)))"
    by blast
  have "kids = map (detail_node ''lib'') (files_in example_coverage [''lib''])"
    using k by (simp add: pkgs pk package_node_def getChildren_def)
  then have "map (\<lambda>k. (getCoverageSummary k False :: unit exn + coverage_summary)) kids =
      map Inr [counts 10 5, counts 6 1]"
    by (simp add: f1 detail_node_def getCoverageSummary_def toSummary_def)
  with ks have "map (\<lambda>(path, fc). toSummary fc)
      (filter (\<lambda>(path, fc). dirname path = dirs ! 0) example_coverage) =
      [counts 10 5, counts 6 1]"
    by (simp only: inj_map_eq_map [OF inj_Inr])
  moreover have "merge_all [counts 10 5, counts 6 1] = counts 16 6"
    by (simp add: merge_all_def merge_def merge_metric_def empty_summary_def empty_metric_def
        counts_def)
  ultimately have "(getCoverageSummary (children (root_node example_coverage) ! 0) False
      :: unit exn + coverage_summary) = Inr (counts 16 6)"
    using s by (simp add: pkgs)
  moreover have "map ov_getQualifiedName (children (root_node example_coverage)) =
      [Some ''lib'', Some ''lib/util'']"
    by (simp add: pk package_node_def)
  moreover have kids_of: "children (package_node example_coverage dir) =
      map (detail_node (join_path dir)) (files_in example_coverage dir)" for dir
    by (simp add: children_def package_node_def)
  have "map (\<lambda>p. map ov_getQualifiedName (children p)) (children (root_node example_coverage)) =
      [[Some ''lib/a.js'', Some ''lib/c.js''], [Some ''lib/util/b.js'']]"
    by (simp add: pk kids_of f1 f2 detail_node_def)
  ultimately show ?thesis
    using v t by simp
qed

end
